theory Spec2Isabelle
  imports Complex_Main "HOL-Library.Word" "HOL-Library.Sublist"
begin

section \<open>ThreadSafeQueue (main.cpp)\<close>

text \<open>
  The class holds a \<^verbatim>\<open>std::queue<T>\<close>, a mutex, a condition variable and the flag
  \<^verbatim>\<open>stop_requested_\<close>. Every method body runs with the mutex held, so each call acts on
  the pair (pending sequence, flag) in one indivisible step; the record below is that pair.
  Isabelle rejects identifiers that end in an underscore, so the members \<^verbatim>\<open>queue_\<close> and
  \<^verbatim>\<open>stop_requested_\<close> carry the suffix \<open>_m\<close>. The head of the list is the front of the
  queue.
\<close>

record 'a ThreadSafeQueue =
  queue_m :: "'a list"
  stop_requested_m :: bool

text \<open>The implicit default constructor: an empty queue, \<^verbatim>\<open>stop_requested_ = false\<close>.\<close>

definition new_queue :: "'a ThreadSafeQueue" where
  "new_queue = \<lparr>queue_m = [], stop_requested_m = False\<rparr>"

text \<open>The exception thrown by \<^verbatim>\<open>wait_and_pop\<close>, with its message.\<close>

datatype error = runtime_error string

definition queue_stopped :: error where
  "queue_stopped = runtime_error ''ThreadSafeQueue stopped.''"

text \<open>\<^verbatim>\<open>void push(T value)\<close>: appends at the back. It has no failing path.\<close>

definition push :: "'a ThreadSafeQueue \<Rightarrow> 'a \<Rightarrow> 'a ThreadSafeQueue" where
  "push q v = q\<lparr>queue_m := queue_m q @ [v]\<rparr>"

text \<open>
  \<^verbatim>\<open>bool try_pop(T& value)\<close>: \<open>None\<close> stands for the return value \<^verbatim>\<open>false\<close> (the
  caller's variable is left alone), \<open>Some x\<close> for \<^verbatim>\<open>true\<close> with \<open>x\<close> stored in the
  caller's variable.
\<close>

definition try_pop :: "'a ThreadSafeQueue \<Rightarrow> 'a option \<times> 'a ThreadSafeQueue" where
  "try_pop q =
     (if queue_m q = [] then (None, q)
      else (Some (hd (queue_m q)), q\<lparr>queue_m := tl (queue_m q)\<rparr>))"

text \<open>The predicate handed to \<^verbatim>\<open>cv_.wait\<close>: the caller sleeps for as long as it is false.\<close>

definition wait_ready :: "'a ThreadSafeQueue \<Rightarrow> bool" where
  "wait_ready q = (queue_m q \<noteq> [] \<or> stop_requested_m q)"

text \<open>
  \<^verbatim>\<open>void wait_and_pop(T& value)\<close>, as one attempt made with the mutex held.
  \<open>None\<close>: the predicate is false, the caller releases the mutex and stays asleep on the
  condition variable, the queue is untouched and the call has not returned.
  \<open>Some (Inl e, q)\<close>: the call throws \<open>e\<close>. \<open>Some (Inr x, q')\<close>: the call returns with
  \<open>x\<close> stored in the caller's variable.
\<close>

definition wait_and_pop ::
  "'a ThreadSafeQueue \<Rightarrow> ((error + 'a) \<times> 'a ThreadSafeQueue) option" where
  "wait_and_pop q =
     (if \<not> wait_ready q then None
      else if stop_requested_m q \<and> queue_m q = [] then Some (Inl queue_stopped, q)
      else Some (Inr (hd (queue_m q)), q\<lparr>queue_m := tl (queue_m q)\<rparr>))"

text \<open>\<^verbatim>\<open>void stop()\<close>: sets the flag. No method ever clears it.\<close>

definition stop :: "'a ThreadSafeQueue \<Rightarrow> 'a ThreadSafeQueue" where
  "stop q = q\<lparr>stop_requested_m := True\<rparr>"

subsection \<open>Sequences of calls\<close>

text \<open>
  Since the mutex serialises the method bodies, every execution of the producer and the
  consumers is a sequence of calls applied one after the other, whatever the interleaving.
  \<open>run\<close> applies such a sequence and records what each call gave back. A \<open>WaitAndPop\<close>
  whose result is \<open>None\<close> is an attempt that found the predicate false: the caller sleeps
  and tries again at a later position of the sequence.
\<close>

datatype 'a call = Push 'a | TryPop | WaitAndPop | Stop

datatype 'a ret =
    PushRet
  | TryPopRet "'a option"
  | WaitAndPopRet "(error + 'a) option"
  | StopRet

fun exec :: "'a ThreadSafeQueue \<Rightarrow> 'a call \<Rightarrow> 'a ret \<times> 'a ThreadSafeQueue" where
  "exec q (Push v) = (PushRet, push q v)"
| "exec q TryPop = (TryPopRet (fst (try_pop q)), snd (try_pop q))"
| "exec q WaitAndPop =
     (case wait_and_pop q of
        None \<Rightarrow> (WaitAndPopRet None, q)
      | Some (r, q') \<Rightarrow> (WaitAndPopRet (Some r), q'))"
| "exec q Stop = (StopRet, stop q)"

fun run :: "'a ThreadSafeQueue \<Rightarrow> 'a call list \<Rightarrow> 'a ret list \<times> 'a ThreadSafeQueue" where
  "run q [] = ([], q)"
| "run q (c # cs) =
     (fst (exec q c) # fst (run (snd (exec q c)) cs), snd (run (snd (exec q c)) cs))"

text \<open>The value a call handed to its caller, if it handed one.\<close>

fun returned :: "'a ret \<Rightarrow> 'a list" where
  "returned (TryPopRet (Some x)) = [x]"
| "returned (WaitAndPopRet (Some (Inr x))) = [x]"
| "returned _ = []"

definition delivered :: "'a ret list \<Rightarrow> 'a list" where
  "delivered rs = concat (map returned rs)"

fun pushed_by :: "'a call \<Rightarrow> 'a list" where
  "pushed_by (Push v) = [v]"
| "pushed_by _ = []"

definition pushed :: "'a call list \<Rightarrow> 'a list" where
  "pushed cs = concat (map pushed_by cs)"

fun is_pop :: "'a call \<Rightarrow> bool" where
  "is_pop TryPop = True"
| "is_pop WaitAndPop = True"
| "is_pop _ = False"

section \<open>MarketDataTick and MarketDataGenerator (marketData.h, marketData.cpp)\<close>

text \<open>
  \<^verbatim>\<open>long\<close> is the 64-bit two's-complement integer of the LP64 targets, \<^verbatim>\<open>int\<close> the 32-bit
  one; \<open><s\<close> and \<open>\<le>s\<close> compare signed values and \<open>sint\<close> reads one. C++ leaves signed
  overflow undefined; the addition below has the wrap-around result of the machine
  instruction.

  \<^verbatim>\<open>double\<close> values are real numbers: the finite doubles. The result of a floating-point
  operation is the exact result rounded to a double, and a decimal literal denotes the
  rounding of its decimal value. The rounding function is the parameter \<open>fl\<close> of the
  definitions; nothing is assumed about it. NaN and the infinities are not modelled.

  The time point is the number of milliseconds since the epoch.
\<close>

type_synonym long = "64 word"

type_synonym cint = "32 word"

record MarketDataTick =
  timestamp :: int
  symbol :: string
  price :: real
  volume :: long

text \<open>
  The data members of the class. The two \<^verbatim>\<open>std::mt19937\<close> engines and the two
  distributions belong to the standard library; a call of \<open>generateTick\<close> receives the two
  numbers they deliver, and the clock reading, as its input.
\<close>

record MarketDataGenerator =
  symbol_m :: string
  currentPrice_m :: real
  currentVolume_m :: long

record tick_input =
  now :: int
  price_draw :: real
  volume_draw :: cint

text \<open>What \<^verbatim>\<open>volumeDist_(1, 100)\<close> can deliver: an \<^verbatim>\<open>int\<close> between 1 and 100, both included.\<close>

definition in_volumeDist :: "cint \<Rightarrow> bool" where
  "in_volumeDist d = (1 \<le>s d \<and> d \<le>s 100)"

text \<open>The constructor: it stores its three arguments.\<close>

definition new_generator :: "string \<Rightarrow> real \<Rightarrow> long \<Rightarrow> MarketDataGenerator" where
  "new_generator name initialPrice initialVolume =
     \<lparr>symbol_m = name, currentPrice_m = initialPrice, currentVolume_m = initialVolume\<rparr>"

definition getSymbol :: "MarketDataGenerator \<Rightarrow> string" where
  "getSymbol g = symbol_m g"

text \<open>The literal \<^verbatim>\<open>0.01\<close> of the price clamp.\<close>

definition price_floor :: "(real \<Rightarrow> real) \<Rightarrow> real" where
  "price_floor fl = fl (1 / 100)"

text \<open>\<^verbatim>\<open>currentPrice_ += priceDist_(priceGen_) * 0.1\<close>, before the clamp.\<close>

definition perturbedPrice :: "(real \<Rightarrow> real) \<Rightarrow> MarketDataGenerator \<Rightarrow> tick_input \<Rightarrow> real" where
  "perturbedPrice fl g i = fl (currentPrice_m g + fl (price_draw i * fl (1 / 10)))"

text \<open>
  \<^verbatim>\<open>currentVolume_ += volumeDist_(volumeGen_)\<close>, before the clamp: the \<^verbatim>\<open>int\<close> is
  sign-extended to \<^verbatim>\<open>long\<close> and added.
\<close>

definition perturbedVolume :: "MarketDataGenerator \<Rightarrow> tick_input \<Rightarrow> long" where
  "perturbedVolume g i = currentVolume_m g + scast (volume_draw i)"

text \<open>The guard \<^verbatim>\<open>currentVolume_ < 1\<close> of the volume clamp, as the call evaluates it.\<close>

definition volume_guard :: "MarketDataGenerator \<Rightarrow> tick_input \<Rightarrow> bool" where
  "volume_guard g i = (perturbedVolume g i <s 1)"

text \<open>\<^verbatim>\<open>MarketDataTick generateTick()\<close>: the tick returned and the generator afterwards.\<close>

definition generateTick ::
  "(real \<Rightarrow> real) \<Rightarrow> MarketDataGenerator \<Rightarrow> tick_input
     \<Rightarrow> MarketDataTick \<times> MarketDataGenerator" where
  "generateTick fl g i =
     (let p = (if perturbedPrice fl g i < price_floor fl then price_floor fl
               else perturbedPrice fl g i);
          v = (if volume_guard g i then 1 else perturbedVolume g i)
      in (\<lparr>timestamp = now i, symbol = symbol_m g, price = p, volume = v\<rparr>,
          g\<lparr>currentPrice_m := p, currentVolume_m := v\<rparr>))"

text \<open>Successive calls on one generator, one input per call: the ticks and the final state.\<close>

fun generateTicks ::
  "(real \<Rightarrow> real) \<Rightarrow> MarketDataGenerator \<Rightarrow> tick_input list
     \<Rightarrow> MarketDataTick list \<times> MarketDataGenerator" where
  "generateTicks fl g [] = ([], g)"
| "generateTicks fl g (i # ins) =
     (fst (generateTick fl g i) # fst (generateTicks fl (snd (generateTick fl g i)) ins),
      snd (generateTicks fl (snd (generateTick fl g i)) ins))"

text \<open>For each of these calls, whether it took the volume clamp branch.\<close>

fun volume_guards :: "(real \<Rightarrow> real) \<Rightarrow> MarketDataGenerator \<Rightarrow> tick_input list \<Rightarrow> bool list" where
  "volume_guards fl g [] = []"
| "volume_guards fl g (i # ins) =
     volume_guard g i # volume_guards fl (snd (generateTick fl g i)) ins"

section \<open>The simulation loop and the CSV writer (main.cpp)\<close>

text \<open>
  The producer touches the queue only through \<open>push\<close> and \<open>stop\<close>, and never reads it, so
  the main thread is the sequence of queue calls it makes. \<open>inp step k\<close> is the input of
  the call of \<open>generateTick\<close> made in step \<open>step\<close> on the generator at position \<open>k\<close> of
  the vector. Console output and the sleep between steps do not touch the queue.
\<close>

text \<open>The inner loop \<^verbatim>\<open>for (auto& generator : generators)\<close>, from position \<open>k\<close> on.\<close>

fun generators_pass ::
  "(real \<Rightarrow> real) \<Rightarrow> (nat \<Rightarrow> tick_input) \<Rightarrow> nat \<Rightarrow> MarketDataGenerator list
     \<Rightarrow> MarketDataTick call list \<times> MarketDataGenerator list" where
  "generators_pass fl inp k [] = ([], [])"
| "generators_pass fl inp k (g # gs) =
     (Push (fst (generateTick fl g (inp k))) # fst (generators_pass fl inp (Suc k) gs),
      snd (generateTick fl g (inp k)) # snd (generators_pass fl inp (Suc k) gs))"

text \<open>The outer loop \<^verbatim>\<open>for (int step = 0; step < num_simulation_steps; ++step)\<close>.\<close>

function simulation_loop ::
  "(real \<Rightarrow> real) \<Rightarrow> (nat \<Rightarrow> nat \<Rightarrow> tick_input) \<Rightarrow> nat \<Rightarrow> nat \<Rightarrow> MarketDataGenerator list
     \<Rightarrow> MarketDataTick call list" where
  "simulation_loop fl inp num step gs =
     (if step < num
      then fst (generators_pass fl (inp step) 0 gs)
           @ simulation_loop fl inp num (Suc step) (snd (generators_pass fl (inp step) 0 gs))
      else [])"
  by pat_completeness auto
termination
  by (relation "measure (\<lambda>(fl, inp, num, step, gs). num - step)") auto

declare simulation_loop.simps [simp del]

text \<open>The loop, then \<^verbatim>\<open>tickQueue.stop()\<close>.\<close>

definition producer_calls ::
  "(real \<Rightarrow> real) \<Rightarrow> (nat \<Rightarrow> nat \<Rightarrow> tick_input) \<Rightarrow> nat \<Rightarrow> MarketDataGenerator list
     \<Rightarrow> MarketDataTick call list" where
  "producer_calls fl inp num gs = simulation_loop fl inp num 0 gs @ [Stop]"

text \<open>The constants of \<^verbatim>\<open>main\<close>.\<close>

definition num_simulation_steps :: nat where
  "num_simulation_steps = 50"

definition generators :: "(real \<Rightarrow> real) \<Rightarrow> MarketDataGenerator list" where
  "generators fl =
     [new_generator ''GOOG'' (fl 150) 1000,
      new_generator ''AAPL'' (fl (351 / 2)) 1200,
      new_generator ''MSFT'' (fl (4201 / 10)) 800,
      new_generator ''AMZN'' (fl (723 / 4)) 1500,
      new_generator ''TSLA'' (fl 200) 900]"

definition main_calls ::
  "(real \<Rightarrow> real) \<Rightarrow> (nat \<Rightarrow> nat \<Rightarrow> tick_input) \<Rightarrow> MarketDataTick call list" where
  "main_calls fl inp = producer_calls fl inp num_simulation_steps (generators fl)"

text \<open>
  The file written by \<^verbatim>\<open>csvWriterThread\<close>, line by line: the header, then one row per
  tick. A row stands for the formatted text of its tick.
\<close>

datatype csv_line = Header | Row MarketDataTick

record writer =
  outputFile :: "csv_line list"
  finished :: bool

text \<open>
  The start of \<^verbatim>\<open>csvWriterThread\<close>: when the file cannot be opened the function returns
  at once; otherwise it writes the header and enters the loop.
\<close>

definition csvWriterThread_start :: "bool \<Rightarrow> writer" where
  "csvWriterThread_start is_open =
     (if \<not> is_open then \<lparr>outputFile = [], finished = True\<rparr>
      else \<lparr>outputFile = [Header], finished = False\<rparr>)"

text \<open>
  One turn of its \<^verbatim>\<open>while (true)\<close> loop: an attempt of \<open>wait_and_pop\<close>. Asleep, nothing
  changes; a tick is written as a row; the exception ends the loop and the function.
\<close>

definition csvWriterThread_turn ::
  "MarketDataTick ThreadSafeQueue \<Rightarrow> writer \<Rightarrow> MarketDataTick ThreadSafeQueue \<times> writer" where
  "csvWriterThread_turn q w =
     (if finished w then (q, w)
      else case wait_and_pop q of
             None \<Rightarrow> (q, w)
           | Some (Inl e, q') \<Rightarrow> (q', w\<lparr>finished := True\<rparr>)
           | Some (Inr tick, q') \<Rightarrow> (q', w\<lparr>outputFile := outputFile w @ [Row tick]\<rparr>))"

text \<open>
  The two threads and the queue they share. A schedule names the thread that makes the
  next atomic step; the main thread with no call left waits in \<^verbatim>\<open>join\<close>.
\<close>

record system =
  tickQueue :: "MarketDataTick ThreadSafeQueue"
  main_todo :: "MarketDataTick call list"
  writerThread :: writer

datatype thread = MainThread | WriterThread

fun thread_step :: "system \<Rightarrow> thread \<Rightarrow> system" where
  "thread_step s MainThread =
     (case main_todo s of
        [] \<Rightarrow> s
      | c # cs \<Rightarrow> s\<lparr>tickQueue := snd (exec (tickQueue s) c), main_todo := cs\<rparr>)"
| "thread_step s WriterThread =
     s\<lparr>tickQueue := fst (csvWriterThread_turn (tickQueue s) (writerThread s)),
       writerThread := snd (csvWriterThread_turn (tickQueue s) (writerThread s))\<rparr>"

fun schedule :: "system \<Rightarrow> thread list \<Rightarrow> system" where
  "schedule s [] = s"
| "schedule s (t # ts) = schedule (thread_step s t) ts"

definition start_system :: "bool \<Rightarrow> MarketDataTick call list \<Rightarrow> system" where
  "start_system is_open calls =
     \<lparr>tickQueue = new_queue, main_todo = calls, writerThread = csvWriterThread_start is_open\<rparr>"

text \<open>The ticks of the rows of a file, in the order of the lines.\<close>

fun rows_of :: "csv_line list \<Rightarrow> MarketDataTick list" where
  "rows_of [] = []"
| "rows_of (Header # ls) = rows_of ls"
| "rows_of (Row t # ls) = t # rows_of ls"

text \<open>
  What holds at every moment of the handoff of the ticks \<open>ts\<close> pushed by the main thread:
  the file is the header followed by rows; the rows written, the pending ticks and the
  ticks still to be pushed make up \<open>ts\<close>, in this order; until \<open>stop\<close> is called the main
  thread has pushes and the final \<open>stop\<close> before it and the writer runs, afterwards the
  main thread has no call left; a writer that has returned left the queue empty.
\<close>

definition handoff_inv :: "MarketDataTick list \<Rightarrow> system \<Rightarrow> bool" where
  "handoff_inv ts s =
     (outputFile (writerThread s) = Header # map Row (rows_of (outputFile (writerThread s)))
      \<and> rows_of (outputFile (writerThread s)) @ queue_m (tickQueue s) @ pushed (main_todo s) = ts
      \<and> (if stop_requested_m (tickQueue s) then main_todo s = []
          else main_todo s = map Push (pushed (main_todo s)) @ [Stop]
               \<and> \<not> finished (writerThread s))
      \<and> (finished (writerThread s) \<longrightarrow> queue_m (tickQueue s) = []))"

section \<open>Properties of the queue\<close>

lemma try_pop_Nil: "queue_m q = [] \<Longrightarrow> try_pop q = (None, q)"
  by (simp add: try_pop_def)

lemma try_pop_Cons: "queue_m q = x # xs \<Longrightarrow> try_pop q = (Some x, q\<lparr>queue_m := xs\<rparr>)"
  by (simp add: try_pop_def)

lemma wait_and_pop_Cons:
  "queue_m q = x # xs \<Longrightarrow> wait_and_pop q = Some (Inr x, q\<lparr>queue_m := xs\<rparr>)"
  by (simp add: wait_and_pop_def wait_ready_def)

lemma wait_and_pop_stopped:
  "queue_m q = [] \<Longrightarrow> stop_requested_m q \<Longrightarrow> wait_and_pop q = Some (Inl queue_stopped, q)"
  by (simp add: wait_and_pop_def wait_ready_def)

lemma wait_and_pop_asleep:
  "queue_m q = [] \<Longrightarrow> \<not> stop_requested_m q \<Longrightarrow> wait_and_pop q = None"
  by (simp add: wait_and_pop_def wait_ready_def)

lemma wait_and_pop_throws_only_empty:
  "wait_and_pop q = Some (Inl e, q') \<Longrightarrow> queue_m q = [] \<and> stop_requested_m q \<and> q' = q"
  by (auto simp: wait_and_pop_def split: if_splits)

text \<open>A pop on a non-empty queue hands over the head, whichever of the two calls it is.\<close>

lemma exec_pop_Cons:
  "is_pop c \<Longrightarrow> queue_m q = x # xs \<Longrightarrow>
     returned (fst (exec q c)) = [x] \<and> snd (exec q c) = q\<lparr>queue_m := xs\<rparr>"
  by (cases c) (simp_all add: try_pop_Cons wait_and_pop_Cons)

lemma exec_pop_Nil:
  "is_pop c \<Longrightarrow> queue_m q = [] \<Longrightarrow> returned (fst (exec q c)) = [] \<and> snd (exec q c) = q"
  by (cases c; cases "stop_requested_m q")
     (simp_all add: try_pop_Nil wait_and_pop_stopped wait_and_pop_asleep)

text \<open>One call keeps the balance: what was handed out plus what is pending.\<close>

lemma exec_balance:
  "returned (fst (exec q c)) @ queue_m (snd (exec q c)) = queue_m q @ pushed_by c"
proof (cases c)
  case (Push v)
  then show ?thesis by (simp add: push_def)
next
  case TryPop
  then show ?thesis by (cases "queue_m q") (simp_all add: try_pop_Nil try_pop_Cons)
next
  case WaitAndPop
  show ?thesis
  proof (cases "queue_m q")
    case Nil
    with WaitAndPop show ?thesis
      by (cases "stop_requested_m q") (simp_all add: wait_and_pop_stopped wait_and_pop_asleep)
  next
    case (Cons x xs)
    with WaitAndPop show ?thesis by (simp add: wait_and_pop_Cons)
  qed
next
  case Stop
  then show ?thesis by (simp add: stop_def)
qed

lemma run_balance:
  "delivered (fst (run q cs)) @ queue_m (snd (run q cs)) = queue_m q @ pushed cs"
proof (induction cs arbitrary: q)
  case Nil
  show ?case by (simp add: delivered_def pushed_def)
next
  case (Cons c cs)
  have "delivered (fst (run q (c # cs))) @ queue_m (snd (run q (c # cs)))
        = returned (fst (exec q c))
          @ (delivered (fst (run (snd (exec q c)) cs)) @ queue_m (snd (run (snd (exec q c)) cs)))"
    by (simp add: delivered_def)
  also have "\<dots> = returned (fst (exec q c)) @ (queue_m (snd (exec q c)) @ pushed cs)"
    by (simp only: Cons.IH)
  also have "\<dots> = (queue_m q @ pushed_by c) @ pushed cs"
    using exec_balance [of q c] by simp
  finally show ?case by (simp add: pushed_def)
qed

lemma run_append:
  "run q (cs @ ds) =
     (fst (run q cs) @ fst (run (snd (run q cs)) ds), snd (run (snd (run q cs)) ds))"
  by (induction cs arbitrary: q) simp_all

text \<open>Enough pops, of either kind and in any mix, hand out everything that is pending.\<close>

lemma run_pops_drain:
  "\<forall>c \<in> set ps. is_pop c \<Longrightarrow> length (queue_m q) \<le> length ps \<Longrightarrow>
     delivered (fst (run q ps)) = queue_m q \<and> queue_m (snd (run q ps)) = []"
proof (induction ps arbitrary: q)
  case Nil
  then show ?case by (simp add: delivered_def)
next
  case (Cons c ps)
  show ?case
  proof (cases "queue_m q")
    case Nil
    with Cons.prems have same: "returned (fst (exec q c)) = []" "snd (exec q c) = q"
      using exec_pop_Nil [of c q] by simp_all
    from Cons.prems Nil have "delivered (fst (run q ps)) = queue_m q \<and> queue_m (snd (run q ps)) = []"
      by (intro Cons.IH) simp_all
    with same show ?thesis by (simp add: delivered_def)
  next
    case (Cons x xs)
    with Cons.prems have hd: "returned (fst (exec q c)) = [x]" "snd (exec q c) = q\<lparr>queue_m := xs\<rparr>"
      using exec_pop_Cons [of c q x xs] by simp_all
    from Cons.prems Cons
    have "delivered (fst (run (q\<lparr>queue_m := xs\<rparr>) ps)) = queue_m (q\<lparr>queue_m := xs\<rparr>)
          \<and> queue_m (snd (run (q\<lparr>queue_m := xs\<rparr>) ps)) = []"
      by (intro Cons.IH) simp_all
    with hd Cons show ?thesis by (simp add: delivered_def)
  qed
qed

text \<open>
  C1. Global FIFO, each value exactly once. For a queue that starts empty and any sequence
  of calls (pushes, pops of both kinds and stops, in any interleaving), the values handed
  out so far followed by the values still pending are exactly the values pushed, in push
  order. When the calls are followed by at least as many pops (of either kind) as there are
  pending values, the values handed out are exactly the values pushed, in push order.
\<close>

theorem fifo_exactly_once:
  "delivered (fst (run new_queue cs)) @ queue_m (snd (run new_queue cs)) = pushed cs
   \<and> ((\<forall>c \<in> set ps. is_pop c) \<and> length (queue_m (snd (run new_queue cs))) \<le> length ps
        \<longrightarrow> delivered (fst (run new_queue (cs @ ps))) = pushed cs)"
proof
  show bal: "delivered (fst (run new_queue cs)) @ queue_m (snd (run new_queue cs)) = pushed cs"
    using run_balance [of new_queue cs] by (simp add: new_queue_def)
  show "(\<forall>c \<in> set ps. is_pop c) \<and> length (queue_m (snd (run new_queue cs))) \<le> length ps
        \<longrightarrow> delivered (fst (run new_queue (cs @ ps))) = pushed cs"
  proof
    assume h: "(\<forall>c \<in> set ps. is_pop c) \<and> length (queue_m (snd (run new_queue cs))) \<le> length ps"
    then have "delivered (fst (run (snd (run new_queue cs)) ps)) = queue_m (snd (run new_queue cs))"
      using run_pops_drain [of ps "snd (run new_queue cs)"] by simp
    then have "delivered (fst (run new_queue (cs @ ps)))
               = delivered (fst (run new_queue cs)) @ queue_m (snd (run new_queue cs))"
      by (simp add: run_append delivered_def)
    with bal show "delivered (fst (run new_queue (cs @ ps))) = pushed cs" by simp
  qed
qed

theorem fifo_exactly_once_witness:
  "delivered (fst (run new_queue
      [Push (1::nat), Push 2, TryPop, Stop, Push 3, WaitAndPop, TryPop])) = [1, 2, 3]"
  using fifo_exactly_once
    [of "[Push (1::nat), Push 2, TryPop, Stop, Push 3]" "[WaitAndPop, TryPop]"]
  by (simp add: new_queue_def push_def stop_def try_pop_def wait_and_pop_def wait_ready_def
      pushed_def)


lemma foldl_push: "foldl push q xs = q\<lparr>queue_m := queue_m q @ xs\<rparr>"
  by (induction xs arbitrary: q) (simp_all add: push_def)

lemma exec_keeps_stop: "stop_requested_m q \<Longrightarrow> stop_requested_m (snd (exec q c))"
  by (cases c) (simp_all add: push_def stop_def try_pop_def wait_and_pop_def)

lemma run_keeps_stop: "stop_requested_m q \<Longrightarrow> stop_requested_m (snd (run q cs))"
  by (induction cs arbitrary: q) (simp_all add: exec_keeps_stop)

text \<open>Exactly as many blocking pops as there are pending values: each returns a value.\<close>

lemma run_wait_and_pop_all:
  "queue_m q = xs \<Longrightarrow>
     run q (replicate (length xs) WaitAndPop)
       = (map (\<lambda>x. WaitAndPopRet (Some (Inr x))) xs, q\<lparr>queue_m := []\<rparr>)"
proof (induction xs arbitrary: q)
  case Nil
  then show ?case by simp
next
  case (Cons x xs)
  from Cons.prems have step: "exec q WaitAndPop = (WaitAndPopRet (Some (Inr x)), q\<lparr>queue_m := xs\<rparr>)"
    by (simp add: wait_and_pop_Cons)
  have "run (q\<lparr>queue_m := xs\<rparr>) (replicate (length xs) WaitAndPop)
        = (map (\<lambda>x. WaitAndPopRet (Some (Inr x))) xs, q\<lparr>queue_m := xs, queue_m := []\<rparr>)"
    by (rule Cons.IH) simp
  with step show ?case by simp
qed

text \<open>Pops that do not outnumber the pending values hand out a prefix and leave the rest.\<close>

lemma run_pops_take:
  "\<forall>c \<in> set ps. is_pop c \<Longrightarrow> length ps \<le> length (queue_m q) \<Longrightarrow>
     delivered (fst (run q ps)) = take (length ps) (queue_m q)
     \<and> snd (run q ps) = q\<lparr>queue_m := drop (length ps) (queue_m q)\<rparr>"
proof (induction ps arbitrary: q)
  case Nil
  then show ?case by (simp add: delivered_def)
next
  case (Cons c ps)
  from Cons.prems obtain x xs where q: "queue_m q = x # xs"
    by (cases "queue_m q") auto
  with Cons.prems have hd: "returned (fst (exec q c)) = [x]" "snd (exec q c) = q\<lparr>queue_m := xs\<rparr>"
    using exec_pop_Cons [of c q x xs] by simp_all
  from Cons.prems q
  have "delivered (fst (run (q\<lparr>queue_m := xs\<rparr>) ps)) = take (length ps) (queue_m (q\<lparr>queue_m := xs\<rparr>))
        \<and> snd (run (q\<lparr>queue_m := xs\<rparr>) ps)
            = q\<lparr>queue_m := xs\<rparr>\<lparr>queue_m := drop (length ps) (queue_m (q\<lparr>queue_m := xs\<rparr>))\<rparr>"
    by (intro Cons.IH) simp_all
  with hd q show ?case by (simp add: delivered_def)
qed

text \<open>
  C2. No loss across shutdown. Whatever the stop flag says, \<open>wait_and_pop\<close> on a queue
  whose head is \<open>x\<close> returns \<open>x\<close> and removes it; it throws only when the queue is
  empty. After the values \<open>xs\<close> were pushed and \<open>stop\<close> was called, as many
  \<open>wait_and_pop\<close> calls as there are pending values each return the next pending value,
  in order, and the call after them throws the stopped condition.
\<close>

theorem no_loss_across_shutdown:
  "(queue_m s = x # rest \<longrightarrow> wait_and_pop s = Some (Inr x, s\<lparr>queue_m := rest\<rparr>))
   \<and> (wait_and_pop s = Some (Inl e, s') \<longrightarrow> queue_m s = [])
   \<and> run (stop (foldl push q xs)) (replicate (length (queue_m q @ xs)) WaitAndPop)
       = (map (\<lambda>x. WaitAndPopRet (Some (Inr x))) (queue_m q @ xs), (stop q)\<lparr>queue_m := []\<rparr>)
   \<and> wait_and_pop ((stop q)\<lparr>queue_m := []\<rparr>)
       = Some (Inl queue_stopped, (stop q)\<lparr>queue_m := []\<rparr>)"
proof (intro conjI)
  show "queue_m s = x # rest \<longrightarrow> wait_and_pop s = Some (Inr x, s\<lparr>queue_m := rest\<rparr>)"
    by (simp add: wait_and_pop_Cons)
  show "wait_and_pop s = Some (Inl e, s') \<longrightarrow> queue_m s = []"
    using wait_and_pop_throws_only_empty [of s e s'] by simp
  have "queue_m (stop (foldl push q xs)) = queue_m q @ xs"
    by (simp add: foldl_push stop_def)
  then have "run (stop (foldl push q xs)) (replicate (length (queue_m q @ xs)) WaitAndPop)
        = (map (\<lambda>x. WaitAndPopRet (Some (Inr x))) (queue_m q @ xs),
           (stop (foldl push q xs))\<lparr>queue_m := []\<rparr>)"
    by (rule run_wait_and_pop_all)
  moreover have "(stop (foldl push q xs))\<lparr>queue_m := []\<rparr> = (stop q)\<lparr>queue_m := []\<rparr>"
    by (simp add: foldl_push stop_def)
  ultimately show "run (stop (foldl push q xs)) (replicate (length (queue_m q @ xs)) WaitAndPop)
       = (map (\<lambda>x. WaitAndPopRet (Some (Inr x))) (queue_m q @ xs), (stop q)\<lparr>queue_m := []\<rparr>)"
    by simp
  show "wait_and_pop ((stop q)\<lparr>queue_m := []\<rparr>)
       = Some (Inl queue_stopped, (stop q)\<lparr>queue_m := []\<rparr>)"
    by (rule wait_and_pop_stopped) (simp_all add: stop_def)
qed

theorem no_loss_across_shutdown_witness:
  "wait_and_pop \<lparr>queue_m = [7::nat, 8], stop_requested_m = True\<rparr>
     = Some (Inr 7, \<lparr>queue_m = [8], stop_requested_m = True\<rparr>)
   \<and> run (stop (foldl push new_queue [4::nat, 5, 6])) [WaitAndPop, WaitAndPop, WaitAndPop]
     = ([WaitAndPopRet (Some (Inr 4)), WaitAndPopRet (Some (Inr 5)), WaitAndPopRet (Some (Inr 6))],
        \<lparr>queue_m = [], stop_requested_m = True\<rparr>)
   \<and> wait_and_pop \<lparr>queue_m = ([]::nat list), stop_requested_m = True\<rparr>
     = Some (Inl queue_stopped, \<lparr>queue_m = [], stop_requested_m = True\<rparr>)"
  using no_loss_across_shutdown
    [of "\<lparr>queue_m = [7::nat, 8], stop_requested_m = True\<rparr>" 7 "[8]" _ _ new_queue "[4, 5, 6]"]
  by (simp add: new_queue_def stop_def push_def wait_and_pop_def wait_ready_def)

text \<open>
  C3. Stopped and empty. Once \<open>stop\<close> has been called, the flag stays set through every
  later sequence of calls, and at every later moment at which the queue is empty
  \<open>wait_and_pop\<close> throws the stopped condition: it does not sleep, it returns no value and
  it leaves the queue as it was, so the next such call throws again.
\<close>

theorem stopped_and_empty_throws:
  "stop_requested_m (snd (run (stop q) cs))
   \<and> (queue_m (snd (run (stop q) cs)) = []
        \<longrightarrow> wait_and_pop (snd (run (stop q) cs))
              = Some (Inl queue_stopped, snd (run (stop q) cs)))"
proof -
  have flag: "stop_requested_m (snd (run (stop q) cs))"
    by (rule run_keeps_stop) (simp add: stop_def)
  then show ?thesis by (simp add: wait_and_pop_stopped)
qed

theorem stopped_and_empty_throws_witness:
  "wait_and_pop (snd (run (stop new_queue) [Push (1::nat), WaitAndPop, WaitAndPop, TryPop]))
     = Some (Inl queue_stopped, \<lparr>queue_m = [], stop_requested_m = True\<rparr>)"
  using stopped_and_empty_throws [of "new_queue :: nat ThreadSafeQueue"
      "[Push (1::nat), WaitAndPop, WaitAndPop, TryPop]"]
  by (simp add: new_queue_def push_def stop_def try_pop_def wait_and_pop_def wait_ready_def)

text \<open>
  C4. \<open>push\<close> in either state. In every queue state \<open>push\<close> appends the value at the
  tail and leaves the flag alone, and \<open>stop\<close> leaves the pending values alone. A value
  pushed after \<open>stop\<close> is handed out by the pop (of either kind) that follows the pops
  of the values pending before it.
\<close>

theorem push_in_either_state:
  "queue_m (push q v) = queue_m q @ [v]
   \<and> stop_requested_m (push q v) = stop_requested_m q
   \<and> queue_m (stop q) = queue_m q
   \<and> ((\<forall>p \<in> set ps. is_pop p) \<and> length ps = length (queue_m q) \<and> is_pop c
        \<longrightarrow> delivered (fst (run (push (stop q) v) ps)) = queue_m q
            \<and> returned (fst (exec (snd (run (push (stop q) v) ps)) c)) = [v])"
proof (intro conjI impI)
  show "queue_m (push q v) = queue_m q @ [v]" by (simp add: push_def)
  show "stop_requested_m (push q v) = stop_requested_m q" by (simp add: push_def)
  show "queue_m (stop q) = queue_m q" by (simp add: stop_def)
next
  assume h: "(\<forall>p \<in> set ps. is_pop p) \<and> length ps = length (queue_m q) \<and> is_pop c"
  have pend: "queue_m (push (stop q) v) = queue_m q @ [v]"
    by (simp add: push_def stop_def)
  from h pend have tk:
    "delivered (fst (run (push (stop q) v) ps)) = take (length ps) (queue_m (push (stop q) v))
     \<and> snd (run (push (stop q) v) ps)
        = (push (stop q) v)\<lparr>queue_m := drop (length ps) (queue_m (push (stop q) v))\<rparr>"
    by (intro run_pops_take) simp_all
  with h pend show "delivered (fst (run (push (stop q) v) ps)) = queue_m q" by simp
  from tk h pend have "queue_m (snd (run (push (stop q) v) ps)) = [v]" by simp
  with h show "returned (fst (exec (snd (run (push (stop q) v) ps)) c)) = [v]"
    using exec_pop_Cons [of c "snd (run (push (stop q) v) ps)" v "[]"] by simp
qed

theorem push_in_either_state_witness:
  "queue_m (push (stop \<lparr>queue_m = [1::nat], stop_requested_m = False\<rparr>) 2) = [1, 2]
   \<and> returned (fst (exec (snd (run
        (push (stop \<lparr>queue_m = [1::nat], stop_requested_m = False\<rparr>) 2) [TryPop])) WaitAndPop))
      = [2]"
  using push_in_either_state [of "stop \<lparr>queue_m = [1::nat], stop_requested_m = False\<rparr>" 2
      "[TryPop]" WaitAndPop]
  by (simp add: stop_def push_def)

text \<open>
  C7. \<open>try_pop\<close> has two outcomes and no other: on an empty queue it reports "no item" and
  leaves the queue as it was, with the stop flag set or not; on a non-empty queue it hands
  out the head and removes it. Its result type has no error and no sleeping outcome.
\<close>

theorem try_pop_never_blocks:
  "(queue_m q = [] \<longrightarrow> try_pop q = (None, q))
   \<and> (queue_m q = x # xs \<longrightarrow> try_pop q = (Some x, q\<lparr>queue_m := xs\<rparr>))"
  by (simp add: try_pop_Nil try_pop_Cons)

theorem try_pop_never_blocks_witness:
  "try_pop \<lparr>queue_m = ([]::nat list), stop_requested_m = True\<rparr>
     = (None, \<lparr>queue_m = [], stop_requested_m = True\<rparr>)
   \<and> try_pop \<lparr>queue_m = ([]::nat list), stop_requested_m = False\<rparr>
     = (None, \<lparr>queue_m = [], stop_requested_m = False\<rparr>)
   \<and> try_pop \<lparr>queue_m = [3::nat, 4], stop_requested_m = False\<rparr>
     = (Some 3, \<lparr>queue_m = [4], stop_requested_m = False\<rparr>)"
  using try_pop_never_blocks [of "\<lparr>queue_m = ([]::nat list), stop_requested_m = True\<rparr>"]
    try_pop_never_blocks [of "\<lparr>queue_m = ([]::nat list), stop_requested_m = False\<rparr>"]
    try_pop_never_blocks [of "\<lparr>queue_m = [3::nat, 4], stop_requested_m = False\<rparr>" 3 "[4]"]
  by simp

text \<open>
  C8. \<open>stop\<close> is idempotent: one call or any larger number of calls give the same queue
  state, in which the flag is set and the pending values are those from before.
\<close>

theorem stop_idempotent:
  "(stop ^^ Suc n) q = stop q \<and> stop (stop q) = stop q
   \<and> stop_requested_m (stop q) \<and> queue_m (stop q) = queue_m q"
proof -
  have twice: "stop (stop q) = stop q" by (simp add: stop_def)
  have "(stop ^^ Suc n) q = stop q"
  proof (induction n)
    case 0
    show ?case by simp
  next
    case (Suc n)
    have "(stop ^^ Suc (Suc n)) q = stop ((stop ^^ Suc n) q)" by simp
    with Suc twice show ?case by simp
  qed
  with twice show ?thesis by (simp add: stop_def)
qed


section \<open>Properties of the generator\<close>

lemma sint_scast_draw: "sint (scast (d :: cint) :: long) = sint d"
  by (rule sint_up_scast) (simp add: is_up)

lemma in_volumeDist_sint: "in_volumeDist d \<longleftrightarrow> 1 \<le> sint d \<and> sint d \<le> 100"
  by (simp add: in_volumeDist_def word_sle_eq)

lemma sint_long_lower: "- (2 ^ 63) \<le> sint (v :: long)"
  using sint_ge [of v] by simp

text \<open>Without overflow the machine addition is the addition of the integers.\<close>

lemma perturbedVolume_exact:
  assumes "0 \<le> sint (volume_draw i)"
    and "sint (currentVolume_m g) + sint (volume_draw i) \<le> 2 ^ 63 - 1"
  shows "sint (perturbedVolume g i) = sint (currentVolume_m g) + sint (volume_draw i)"
proof -
  have lo: "- (2 ^ 63) \<le> sint (currentVolume_m g)"
    by (rule sint_long_lower)
  have "sint (perturbedVolume g i)
        = signed_take_bit 63 (sint (currentVolume_m g) + sint (volume_draw i))"
    by (simp add: perturbedVolume_def sint_word_add sint_scast_draw)
  also have "\<dots> = sint (currentVolume_m g) + sint (volume_draw i)"
    using lo assms by (intro signed_take_bit_int_eq_self) simp_all
  finally show ?thesis .
qed

lemma generateTick_fields:
  "timestamp (fst (generateTick fl g i)) = now i"
  "symbol (fst (generateTick fl g i)) = symbol_m g"
  "symbol_m (snd (generateTick fl g i)) = symbol_m g"
  "currentPrice_m (snd (generateTick fl g i)) = price (fst (generateTick fl g i))"
  "currentVolume_m (snd (generateTick fl g i)) = volume (fst (generateTick fl g i))"
  by (simp_all add: generateTick_def Let_def)

lemma generateTick_volume:
  "volume (fst (generateTick fl g i)) = (if volume_guard g i then 1 else perturbedVolume g i)"
  by (simp add: generateTick_def Let_def)

lemma generateTick_price:
  "price (fst (generateTick fl g i))
     = (if perturbedPrice fl g i < price_floor fl then price_floor fl else perturbedPrice fl g i)"
  by (simp add: generateTick_def Let_def)

lemma tick_volume_ge_1: "1 \<le>s volume (fst (generateTick fl g i))"
  by (simp add: generateTick_volume volume_guard_def word_sle_eq word_sless_alt)

lemma tick_price_ge_floor: "price_floor fl \<le> price (fst (generateTick fl g i))"
  by (simp add: generateTick_price)

lemma generateTicks_length: "length (fst (generateTicks fl g ins)) = length ins"
  by (induction ins arbitrary: g) simp_all

lemma generateTicks_floors:
  "t \<in> set (fst (generateTicks fl g ins)) \<Longrightarrow> price_floor fl \<le> price t \<and> 1 \<le>s volume t"
proof (induction ins arbitrary: g)
  case Nil
  then show ?case by simp
next
  case (Cons i ins)
  then show ?case
    by (auto simp: tick_volume_ge_1 tick_price_ge_floor)
qed

lemma generateTicks_state_floors:
  "ins \<noteq> [] \<Longrightarrow>
     price_floor fl \<le> currentPrice_m (snd (generateTicks fl g ins))
     \<and> 1 \<le>s currentVolume_m (snd (generateTicks fl g ins))"
proof (induction ins arbitrary: g)
  case Nil
  then show ?case by simp
next
  case (Cons i ins)
  show ?case
  proof (cases "ins = []")
    case True
    then show ?thesis
      by (simp add: generateTick_fields tick_volume_ge_1 tick_price_ge_floor)
  next
    case False
    then show ?thesis using Cons.IH [of "snd (generateTick fl g i)"] by simp
  qed
qed

lemma generateTicks_state_positive:
  assumes "0 < price_floor fl" and "0 < currentPrice_m g" and "1 \<le>s currentVolume_m g"
  shows "0 < currentPrice_m (snd (generateTicks fl g ins))
         \<and> 1 \<le>s currentVolume_m (snd (generateTicks fl g ins))"
proof (cases "ins = []")
  case True
  with assms show ?thesis by simp
next
  case False
  then have "price_floor fl \<le> currentPrice_m (snd (generateTicks fl g ins))
     \<and> 1 \<le>s currentVolume_m (snd (generateTicks fl g ins))"
    by (rule generateTicks_state_floors)
  with assms(1) show ?thesis by simp
qed

text \<open>
  C5, as amended. Generator floors. Whatever the state of the generator, the number of
  calls and their inputs, every tick returned has a price of at least the floor (the
  double that the literal \<^verbatim>\<open>0.01\<close> denotes) and a volume of at least 1, and so has the
  state left by the last call, when there was a call. A perturbed price below the floor is
  replaced by the floor. The constructor does not clamp: a generator constructed with a
  positive price and a volume of at least 1 has, after any number of calls, none included,
  a positive price and a volume of at least 1, the floor being positive.
\<close>

theorem generator_floors:
  "(\<forall>t \<in> set (fst (generateTicks fl g ins)). price_floor fl \<le> price t \<and> 1 \<le>s volume t)
   \<and> (ins \<noteq> [] \<longrightarrow>
        price_floor fl \<le> currentPrice_m (snd (generateTicks fl g ins))
        \<and> 1 \<le>s currentVolume_m (snd (generateTicks fl g ins)))
   \<and> (perturbedPrice fl g i < price_floor fl \<longrightarrow> price (fst (generateTick fl g i)) = price_floor fl)
   \<and> (0 < price_floor fl \<and> 0 < initialPrice \<and> 1 \<le>s initialVolume \<longrightarrow>
        0 < currentPrice_m (snd (generateTicks fl (new_generator name initialPrice initialVolume) ins))
        \<and> 1 \<le>s currentVolume_m
                (snd (generateTicks fl (new_generator name initialPrice initialVolume) ins)))"
proof (intro conjI ballI impI)
  fix t
  assume "t \<in> set (fst (generateTicks fl g ins))"
  then have "price_floor fl \<le> price t \<and> 1 \<le>s volume t" by (rule generateTicks_floors)
  then show "price_floor fl \<le> price t" and "1 \<le>s volume t" by simp_all
next
  assume "ins \<noteq> []"
  then have "price_floor fl \<le> currentPrice_m (snd (generateTicks fl g ins))
     \<and> 1 \<le>s currentVolume_m (snd (generateTicks fl g ins))"
    by (rule generateTicks_state_floors)
  then show "price_floor fl \<le> currentPrice_m (snd (generateTicks fl g ins))"
    and "1 \<le>s currentVolume_m (snd (generateTicks fl g ins))" by simp_all
next
  assume "perturbedPrice fl g i < price_floor fl"
  then show "price (fst (generateTick fl g i)) = price_floor fl"
    by (simp add: generateTick_price)
next
  assume h: "0 < price_floor fl \<and> 0 < initialPrice \<and> 1 \<le>s initialVolume"
  then have "0 < currentPrice_m (snd (generateTicks fl (new_generator name initialPrice initialVolume) ins))
     \<and> 1 \<le>s currentVolume_m (snd (generateTicks fl (new_generator name initialPrice initialVolume) ins))"
    by (intro generateTicks_state_positive) (simp_all add: new_generator_def)
  then show "0 < currentPrice_m (snd (generateTicks fl (new_generator name initialPrice initialVolume) ins))"
    and "1 \<le>s currentVolume_m (snd (generateTicks fl (new_generator name initialPrice initialVolume) ins))"
    by simp_all
qed

theorem generator_floors_witness:
  "map price (fst (generateTicks id (new_generator ''TEST'' (2 / 100) 1)
      [\<lparr>now = 0, price_draw = - (1 / 2), volume_draw = 1\<rparr>,
       \<lparr>now = 1, price_draw = - (1 / 2), volume_draw = 1\<rparr>])) = [1 / 100, 1 / 100]
   \<and> map volume (fst (generateTicks id (new_generator ''TEST'' (2 / 100) 1)
      [\<lparr>now = 0, price_draw = - (1 / 2), volume_draw = 1\<rparr>,
       \<lparr>now = 1, price_draw = - (1 / 2), volume_draw = 1\<rparr>])) = [2, 3]
   \<and> price_floor id \<le> currentPrice_m (snd (generateTicks id (new_generator ''TEST'' (2 / 100) 1)
      [\<lparr>now = 0, price_draw = - (1 / 2), volume_draw = 1\<rparr>,
       \<lparr>now = 1, price_draw = - (1 / 2), volume_draw = 1\<rparr>]))
   \<and> 1 \<le>s currentVolume_m (snd (generateTicks id (new_generator ''TEST'' (2 / 100) 1)
      [\<lparr>now = 0, price_draw = - (1 / 2), volume_draw = 1\<rparr>,
       \<lparr>now = 1, price_draw = - (1 / 2), volume_draw = 1\<rparr>]))
   \<and> 0 < currentPrice_m (snd (generateTicks id (new_generator ''TEST'' (2 / 100) 1)
      [\<lparr>now = 0, price_draw = - (1 / 2), volume_draw = 1\<rparr>,
       \<lparr>now = 1, price_draw = - (1 / 2), volume_draw = 1\<rparr>]))"
proof -
  have pre: "0 < price_floor id \<and> (0::real) < 2 / 100 \<and> 1 \<le>s (1::long)"
    by (simp add: price_floor_def)
  have ticks: "map price (fst (generateTicks id (new_generator ''TEST'' (2 / 100) 1)
      [\<lparr>now = 0, price_draw = - (1 / 2), volume_draw = 1\<rparr>,
       \<lparr>now = 1, price_draw = - (1 / 2), volume_draw = 1\<rparr>])) = [1 / 100, 1 / 100]
   \<and> map volume (fst (generateTicks id (new_generator ''TEST'' (2 / 100) 1)
      [\<lparr>now = 0, price_draw = - (1 / 2), volume_draw = 1\<rparr>,
       \<lparr>now = 1, price_draw = - (1 / 2), volume_draw = 1\<rparr>])) = [2, 3]"
    by (simp add: generateTick_def Let_def new_generator_def perturbedPrice_def price_floor_def
        volume_guard_def perturbedVolume_def word_sless_alt)
  from pre ticks show ?thesis
    using generator_floors [of id "new_generator ''TEST'' (2 / 100) 1"
      "[\<lparr>now = 0, price_draw = - (1 / 2), volume_draw = 1\<rparr>,
        \<lparr>now = 1, price_draw = - (1 / 2), volume_draw = 1\<rparr>]" _ "2 / 100" 1 "''TEST''"]
    by blast
qed

text \<open>
  C5 as stated fails for the state before the first call. A generator constructed with
  price 0.005, which is positive, and volume 1 holds the price 0.005, below the floor, until
  \<open>generateTick\<close> is called.
\<close>

theorem generator_floor_counterexample:
  "(0::real) < 5 / 1000 \<and> 1 \<le>s (1::long)
   \<and> currentPrice_m (snd (generateTicks id (new_generator ''TEST'' (5 / 1000) 1) [])) = 5 / 1000
   \<and> \<not> price_floor id
         \<le> currentPrice_m (snd (generateTicks id (new_generator ''TEST'' (5 / 1000) 1) []))"
  by (simp add: new_generator_def price_floor_def)

text \<open>Two consecutive ticks: the later call starts from the volume of the earlier tick.\<close>

lemma generateTicks_consecutive:
  "Suc j < length ins \<Longrightarrow>
     \<exists>g'. currentVolume_m g' = volume (fst (generateTicks fl g ins) ! j)
          \<and> 1 \<le>s currentVolume_m g'
          \<and> fst (generateTicks fl g ins) ! Suc j = fst (generateTick fl g' (ins ! Suc j))"
proof (induction ins arbitrary: g j)
  case Nil
  then show ?case by simp
next
  case (Cons i ins)
  show ?case
  proof (cases j)
    case 0
    with Cons.prems obtain i2 rest where ins: "ins = i2 # rest"
      by (cases ins) auto
    show ?thesis
    proof (intro exI conjI)
      show "currentVolume_m (snd (generateTick fl g i))
            = volume (fst (generateTicks fl g (i # ins)) ! j)"
        using 0 by (simp add: generateTick_fields)
      show "1 \<le>s currentVolume_m (snd (generateTick fl g i))"
        by (simp add: generateTick_fields tick_volume_ge_1)
      show "fst (generateTicks fl g (i # ins)) ! Suc j
            = fst (generateTick fl (snd (generateTick fl g i)) ((i # ins) ! Suc j))"
        using 0 ins by simp
    qed
  next
    case (Suc j')
    with Cons.prems have "Suc j' < length ins" by simp
    then obtain g' where
      "currentVolume_m g' = volume (fst (generateTicks fl (snd (generateTick fl g i)) ins) ! j')
       \<and> 1 \<le>s currentVolume_m g'
       \<and> fst (generateTicks fl (snd (generateTick fl g i)) ins) ! Suc j'
          = fst (generateTick fl g' (ins ! Suc j'))"
      using Cons.IH [of j' "snd (generateTick fl g i)"] by blast
    with Suc show ?thesis by auto
  qed
qed

text \<open>A call that starts from a volume of at least 1 and does not overflow adds its draw.\<close>

lemma generateTick_adds_draw:
  assumes "1 \<le>s currentVolume_m g" and "in_volumeDist (volume_draw i)"
    and "sint (currentVolume_m g) + sint (volume_draw i) \<le> 2 ^ 63 - 1"
  shows "\<not> volume_guard g i"
    and "sint (volume (fst (generateTick fl g i))) = sint (currentVolume_m g) + sint (volume_draw i)"
proof -
  have d: "1 \<le> sint (volume_draw i)" using assms(2) by (simp add: in_volumeDist_sint)
  have v: "1 \<le> sint (currentVolume_m g)" using assms(1) by (simp add: word_sle_eq)
  have ex: "sint (perturbedVolume g i) = sint (currentVolume_m g) + sint (volume_draw i)"
    using d assms(3) by (intro perturbedVolume_exact) simp_all
  with d v show g: "\<not> volume_guard g i"
    by (simp add: volume_guard_def word_sless_alt)
  with ex show "sint (volume (fst (generateTick fl g i)))
                = sint (currentVolume_m g) + sint (volume_draw i)"
    by (simp add: generateTick_volume)
qed

text \<open>
  C6, as amended. For two consecutive calls of \<open>generateTick\<close> with draws between 1 and
  100: when the volume of the earlier tick plus the draw of the later call does not exceed
  the largest \<^verbatim>\<open>long\<close>, the volume of the later tick is the volume of the earlier tick
  plus that draw, hence not smaller.
\<close>

theorem volume_nondecreasing_without_overflow:
  assumes "\<forall>i \<in> set ins. in_volumeDist (volume_draw i)"
    and "Suc j < length ins"
    and "sint (volume (fst (generateTicks fl g ins) ! j)) + sint (volume_draw (ins ! Suc j))
           \<le> 2 ^ 63 - 1"
  shows "volume (fst (generateTicks fl g ins) ! j) \<le>s volume (fst (generateTicks fl g ins) ! Suc j)
         \<and> sint (volume (fst (generateTicks fl g ins) ! Suc j))
            = sint (volume (fst (generateTicks fl g ins) ! j)) + sint (volume_draw (ins ! Suc j))"
proof -
  from assms(2) obtain g' where g':
    "currentVolume_m g' = volume (fst (generateTicks fl g ins) ! j)"
    "1 \<le>s currentVolume_m g'"
    "fst (generateTicks fl g ins) ! Suc j = fst (generateTick fl g' (ins ! Suc j))"
    using generateTicks_consecutive [of j ins fl g] by blast
  from assms(1,2) have d: "in_volumeDist (volume_draw (ins ! Suc j))" by simp
  then have d1: "1 \<le> sint (volume_draw (ins ! Suc j))" by (simp add: in_volumeDist_sint)
  from assms(3) g'(1)
  have "sint (currentVolume_m g') + sint (volume_draw (ins ! Suc j)) \<le> 2 ^ 63 - 1" by simp
  with g'(2) d
  have "sint (volume (fst (generateTick fl g' (ins ! Suc j))))
        = sint (currentVolume_m g') + sint (volume_draw (ins ! Suc j))"
    by (rule generateTick_adds_draw(2))
  with g'(1,3) have eq: "sint (volume (fst (generateTicks fl g ins) ! Suc j))
            = sint (volume (fst (generateTicks fl g ins) ! j)) + sint (volume_draw (ins ! Suc j))"
    by simp
  with d1 show ?thesis by (simp add: word_sle_eq)
qed

theorem volume_nondecreasing_without_overflow_witness:
  "volume (fst (generateTicks id (new_generator ''TEST'' 100 500)
      [\<lparr>now = 0, price_draw = 0, volume_draw = 1\<rparr>,
       \<lparr>now = 1, price_draw = 0, volume_draw = 100\<rparr>]) ! 0)
   \<le>s volume (fst (generateTicks id (new_generator ''TEST'' 100 500)
      [\<lparr>now = 0, price_draw = 0, volume_draw = 1\<rparr>,
       \<lparr>now = 1, price_draw = 0, volume_draw = 100\<rparr>]) ! Suc 0)
   \<and> map volume (fst (generateTicks id (new_generator ''TEST'' 100 500)
      [\<lparr>now = 0, price_draw = 0, volume_draw = 1\<rparr>,
       \<lparr>now = 1, price_draw = 0, volume_draw = 100\<rparr>])) = [501, 601]"
proof -
  have vols: "map volume (fst (generateTicks id (new_generator ''TEST'' 100 500)
      [\<lparr>now = 0, price_draw = 0, volume_draw = 1\<rparr>,
       \<lparr>now = 1, price_draw = 0, volume_draw = 100\<rparr>])) = [501, 601]"
    by (simp add: generateTick_def Let_def new_generator_def volume_guard_def
        perturbedVolume_def word_sless_alt)
  then have v0: "volume (fst (generateTicks id (new_generator ''TEST'' 100 500)
      [\<lparr>now = 0, price_draw = 0, volume_draw = 1\<rparr>,
       \<lparr>now = 1, price_draw = 0, volume_draw = 100\<rparr>]) ! 0) = 501"
    by simp
  have "volume (fst (generateTicks id (new_generator ''TEST'' 100 500)
      [\<lparr>now = 0, price_draw = 0, volume_draw = 1\<rparr>,
       \<lparr>now = 1, price_draw = 0, volume_draw = 100\<rparr>]) ! 0)
   \<le>s volume (fst (generateTicks id (new_generator ''TEST'' 100 500)
      [\<lparr>now = 0, price_draw = 0, volume_draw = 1\<rparr>,
       \<lparr>now = 1, price_draw = 0, volume_draw = 100\<rparr>]) ! Suc 0)"
    using volume_nondecreasing_without_overflow [of
      "[\<lparr>now = 0, price_draw = 0, volume_draw = 1\<rparr>,
        \<lparr>now = 1, price_draw = 0, volume_draw = 100\<rparr>]" 0 id "new_generator ''TEST'' 100 500"]
      v0
    by (simp add: in_volumeDist_def word_sle_eq)
  with vols show ?thesis by simp
qed

text \<open>
  C6 as stated fails. A generator constructed with volume 9223372036854775806 and two
  calls with draw 1: the first tick has the largest \<^verbatim>\<open>long\<close> as volume, the addition of
  the second call wraps to a negative value, the clamp fires and the second tick has
  volume 1.
\<close>

theorem volume_monotone_counterexample:
  "in_volumeDist 1 \<and> 1 \<le>s (9223372036854775806 :: long)
   \<and> map volume (fst (generateTicks id (new_generator ''TEST'' 100 9223372036854775806)
      [\<lparr>now = 0, price_draw = 0, volume_draw = 1\<rparr>,
       \<lparr>now = 1, price_draw = 0, volume_draw = 1\<rparr>])) = [9223372036854775807, 1]
   \<and> \<not> (volume (fst (generateTicks id (new_generator ''TEST'' 100 9223372036854775806)
      [\<lparr>now = 0, price_draw = 0, volume_draw = 1\<rparr>,
       \<lparr>now = 1, price_draw = 0, volume_draw = 1\<rparr>]) ! 0)
     \<le>s volume (fst (generateTicks id (new_generator ''TEST'' 100 9223372036854775806)
      [\<lparr>now = 0, price_draw = 0, volume_draw = 1\<rparr>,
       \<lparr>now = 1, price_draw = 0, volume_draw = 1\<rparr>]) ! 1))"
  by (simp add: generateTick_def Let_def new_generator_def volume_guard_def
      perturbedVolume_def word_sless_alt word_sle_eq in_volumeDist_def)

text \<open>The volume clamp over a run of calls.\<close>

lemma volume_guards_dead:
  assumes "1 \<le>s currentVolume_m g"
    and "\<forall>i \<in> set ins. in_volumeDist (volume_draw i)"
    and "sint (currentVolume_m g) + (\<Sum>i\<leftarrow>ins. sint (volume_draw i)) \<le> 2 ^ 63 - 1"
  shows "True \<notin> set (volume_guards fl g ins)
         \<and> sint (currentVolume_m (snd (generateTicks fl g ins)))
            = sint (currentVolume_m g) + (\<Sum>i\<leftarrow>ins. sint (volume_draw i))
         \<and> (\<forall>t \<in> set (fst (generateTicks fl g ins)). 2 \<le>s volume t)"
  using assms
proof (induction ins arbitrary: g)
  case Nil
  then show ?case by simp
next
  case (Cons i ins)
  let ?g = "snd (generateTick fl g i)"
  have rest: "0 \<le> (\<Sum>i\<leftarrow>ins. sint (volume_draw i))"
    using Cons.prems(2) by (intro sum_list_nonneg) (auto simp: in_volumeDist_sint)
  have d: "in_volumeDist (volume_draw i)" using Cons.prems(2) by simp
  then have d1: "1 \<le> sint (volume_draw i)" by (simp add: in_volumeDist_sint)
  have v1: "1 \<le> sint (currentVolume_m g)" using Cons.prems(1) by (simp add: word_sle_eq)
  have nov: "sint (currentVolume_m g) + sint (volume_draw i) \<le> 2 ^ 63 - 1"
    using Cons.prems(3) rest by simp
  have dead: "\<not> volume_guard g i"
    using Cons.prems(1) d nov by (rule generateTick_adds_draw(1))
  have add: "sint (volume (fst (generateTick fl g i)))
             = sint (currentVolume_m g) + sint (volume_draw i)"
    using Cons.prems(1) d nov by (rule generateTick_adds_draw(2))
  then have cur: "sint (currentVolume_m ?g) = sint (currentVolume_m g) + sint (volume_draw i)"
    by (simp add: generateTick_fields)
  have two: "2 \<le>s volume (fst (generateTick fl g i))"
    using add d1 v1 by (simp add: word_sle_eq)
  have "True \<notin> set (volume_guards fl ?g ins)
         \<and> sint (currentVolume_m (snd (generateTicks fl ?g ins)))
            = sint (currentVolume_m ?g) + (\<Sum>i\<leftarrow>ins. sint (volume_draw i))
         \<and> (\<forall>t \<in> set (fst (generateTicks fl ?g ins)). 2 \<le>s volume t)"
  proof (rule Cons.IH)
    show "1 \<le>s currentVolume_m ?g" by (simp add: generateTick_fields tick_volume_ge_1)
    show "\<forall>i \<in> set ins. in_volumeDist (volume_draw i)" using Cons.prems(2) by simp
    show "sint (currentVolume_m ?g) + (\<Sum>i\<leftarrow>ins. sint (volume_draw i)) \<le> 2 ^ 63 - 1"
      using Cons.prems(3) cur by simp
  qed
  with dead cur two show ?case by simp
qed

text \<open>
  C10, as amended. For a generator constructed with a volume of at least 1 and calls with
  draws between 1 and 100: when the initial volume plus the sum of the draws does not
  exceed the largest \<^verbatim>\<open>long\<close>, no call takes the volume clamp branch, the volume after
  the calls is the initial volume plus the sum of the draws, and every tick has a volume
  of at least 2.
\<close>

theorem volume_clamp_dead_without_overflow:
  assumes "1 \<le>s initialVolume"
    and "\<forall>i \<in> set ins. in_volumeDist (volume_draw i)"
    and "sint initialVolume + (\<Sum>i\<leftarrow>ins. sint (volume_draw i)) \<le> 2 ^ 63 - 1"
  shows "True \<notin> set (volume_guards fl (new_generator name initialPrice initialVolume) ins)
         \<and> sint (currentVolume_m
              (snd (generateTicks fl (new_generator name initialPrice initialVolume) ins)))
            = sint initialVolume + (\<Sum>i\<leftarrow>ins. sint (volume_draw i))
         \<and> (\<forall>t \<in> set (fst (generateTicks fl (new_generator name initialPrice initialVolume) ins)).
               2 \<le>s volume t)"
  using volume_guards_dead [of "new_generator name initialPrice initialVolume" ins fl] assms
  by (simp add: new_generator_def)

theorem volume_clamp_dead_without_overflow_witness:
  "volume_guards id (new_generator ''TEST'' 100 1)
      [\<lparr>now = 0, price_draw = 0, volume_draw = 1\<rparr>,
       \<lparr>now = 1, price_draw = 0, volume_draw = 100\<rparr>] = [False, False]
   \<and> sint (currentVolume_m (snd (generateTicks id (new_generator ''TEST'' 100 1)
      [\<lparr>now = 0, price_draw = 0, volume_draw = 1\<rparr>,
       \<lparr>now = 1, price_draw = 0, volume_draw = 100\<rparr>]))) = 102"
proof -
  have len: "length (volume_guards id (new_generator ''TEST'' 100 1)
      [\<lparr>now = 0, price_draw = 0, volume_draw = 1\<rparr>,
       \<lparr>now = 1, price_draw = 0, volume_draw = 100\<rparr>]) = 2"
    by simp
  have "True \<notin> set (volume_guards id (new_generator ''TEST'' 100 1)
      [\<lparr>now = 0, price_draw = 0, volume_draw = 1\<rparr>,
       \<lparr>now = 1, price_draw = 0, volume_draw = 100\<rparr>])
    \<and> sint (currentVolume_m (snd (generateTicks id (new_generator ''TEST'' 100 1)
      [\<lparr>now = 0, price_draw = 0, volume_draw = 1\<rparr>,
       \<lparr>now = 1, price_draw = 0, volume_draw = 100\<rparr>]))) = 102"
    using volume_clamp_dead_without_overflow [of 1
      "[\<lparr>now = 0, price_draw = 0, volume_draw = 1\<rparr>,
        \<lparr>now = 1, price_draw = 0, volume_draw = 100\<rparr>]" id "''TEST''" 100]
    by (simp add: in_volumeDist_def word_sle_eq)
  then show ?thesis by simp
qed

text \<open>
  C10 as stated fails. A generator constructed with the largest \<^verbatim>\<open>long\<close> as volume,
  which is at least 1, and one call with draw 1: the addition wraps, the guard
  \<^verbatim>\<open>currentVolume_ < 1\<close> is true and the tick has volume 1.
\<close>

theorem volume_clamp_counterexample:
  "1 \<le>s (9223372036854775807 :: long) \<and> in_volumeDist 1
   \<and> volume_guard (new_generator ''TEST'' 100 9223372036854775807)
        \<lparr>now = 0, price_draw = 0, volume_draw = 1\<rparr>
   \<and> volume (fst (generateTick id (new_generator ''TEST'' 100 9223372036854775807)
        \<lparr>now = 0, price_draw = 0, volume_draw = 1\<rparr>)) = 1"
  by (simp add: generateTick_def Let_def new_generator_def volume_guard_def
      perturbedVolume_def word_sless_alt word_sle_eq in_volumeDist_def)


section \<open>Properties of the simulation loop and the writer\<close>

lemma pushed_append: "pushed (cs @ ds) = pushed cs @ pushed ds"
  by (simp add: pushed_def)

lemma pushed_map_Push: "pushed (map Push ts) = ts"
  by (induction ts) (simp_all add: pushed_def)

lemma generateTicks_symbol:
  "t \<in> set (fst (generateTicks fl g ins)) \<Longrightarrow> symbol t = symbol_m g"
proof (induction ins arbitrary: g)
  case Nil
  then show ?case by simp
next
  case (Cons i ins)
  then show ?case by (auto simp: generateTick_fields)
qed

text \<open>The inner loop: one push per generator, in the order of the vector.\<close>

lemma generators_pass_calls:
  "fst (generators_pass fl inp k gs) = map Push (pushed (fst (generators_pass fl inp k gs)))"
  by (induction gs arbitrary: k) (simp_all add: pushed_def)

lemma generators_pass_length:
  "length (pushed (fst (generators_pass fl inp k gs))) = length gs"
  "length (snd (generators_pass fl inp k gs)) = length gs"
  by (induction gs arbitrary: k) (simp_all add: pushed_def)

lemma generators_pass_nth:
  "j < length gs \<Longrightarrow>
     pushed (fst (generators_pass fl inp k gs)) ! j = fst (generateTick fl (gs ! j) (inp (k + j)))
     \<and> snd (generators_pass fl inp k gs) ! j = snd (generateTick fl (gs ! j) (inp (k + j)))"
proof (induction gs arbitrary: k j)
  case Nil
  then show ?case by simp
next
  case (Cons g gs)
  show ?case
  proof (cases j)
    case 0
    then show ?thesis by (simp add: pushed_def)
  next
    case (Suc j')
    with Cons.prems have "j' < length gs" by simp
    then have "pushed (fst (generators_pass fl inp (Suc k) gs)) ! j'
                 = fst (generateTick fl (gs ! j') (inp (Suc k + j')))
               \<and> snd (generators_pass fl inp (Suc k) gs) ! j'
                 = snd (generateTick fl (gs ! j') (inp (Suc k + j')))"
      by (rule Cons.IH)
    with Suc show ?thesis by (simp add: pushed_def)
  qed
qed

lemma generators_pass_symbols:
  "map symbol (pushed (fst (generators_pass fl inp k gs))) = map symbol_m gs"
  "map symbol_m (snd (generators_pass fl inp k gs)) = map symbol_m gs"
  by (induction gs arbitrary: k) (simp_all add: pushed_def generateTick_fields)

text \<open>The outer loop.\<close>

lemma simulation_loop_calls:
  "simulation_loop fl inp num step gs = map Push (pushed (simulation_loop fl inp num step gs))"
proof (induction fl inp num step gs rule: simulation_loop.induct)
  case (1 fl inp num step gs)
  show ?case
  proof (cases "step < num")
    case True
    have "simulation_loop fl inp num step gs
          = fst (generators_pass fl (inp step) 0 gs)
            @ simulation_loop fl inp num (Suc step) (snd (generators_pass fl (inp step) 0 gs))"
      using True by (simp add: simulation_loop.simps [of fl inp num step gs])
    moreover have "fst (generators_pass fl (inp step) 0 gs)
          = map Push (pushed (fst (generators_pass fl (inp step) 0 gs)))"
      by (rule generators_pass_calls)
    moreover have "simulation_loop fl inp num (Suc step) (snd (generators_pass fl (inp step) 0 gs))
          = map Push (pushed (simulation_loop fl inp num (Suc step)
                                (snd (generators_pass fl (inp step) 0 gs))))"
      using True by (rule "1.IH")
    ultimately show ?thesis by (metis map_append pushed_append)
  next
    case False
    then show ?thesis
      by (simp add: simulation_loop.simps [of fl inp num step gs] pushed_def)
  qed
qed

lemma simulation_loop_symbols:
  "map symbol (pushed (simulation_loop fl inp num step gs))
     = concat (replicate (num - step) (map symbol_m gs))"
proof (induction fl inp num step gs rule: simulation_loop.induct)
  case (1 fl inp num step gs)
  show ?case
  proof (cases "step < num")
    case True
    let ?gs = "snd (generators_pass fl (inp step) 0 gs)"
    have unfold: "simulation_loop fl inp num step gs
          = fst (generators_pass fl (inp step) 0 gs) @ simulation_loop fl inp num (Suc step) ?gs"
      using True by (simp add: simulation_loop.simps [of fl inp num step gs])
    have "map symbol (pushed (simulation_loop fl inp num (Suc step) ?gs))
          = concat (replicate (num - Suc step) (map symbol_m ?gs))"
      using True by (rule "1.IH")
    then have rest: "map symbol (pushed (simulation_loop fl inp num (Suc step) ?gs))
          = concat (replicate (num - Suc step) (map symbol_m gs))"
      by (simp add: generators_pass_symbols)
    from True have "num - step = Suc (num - Suc step)" by simp
    with unfold rest show ?thesis
      by (simp add: pushed_append generators_pass_symbols)
  next
    case False
    then show ?thesis
      by (simp add: simulation_loop.simps [of fl inp num step gs] pushed_def)
  qed
qed

lemma simulation_loop_nth:
  "step \<le> s \<Longrightarrow> s < num \<Longrightarrow> k < length gs \<Longrightarrow>
     pushed (simulation_loop fl inp num step gs) ! ((s - step) * length gs + k)
       = fst (generateTicks fl (gs ! k) (map (\<lambda>t. inp t k) [step..<num])) ! (s - step)"
proof (induction fl inp num step gs arbitrary: s rule: simulation_loop.induct)
  case (1 fl inp num step gs)
  let ?pass = "generators_pass fl (inp step) 0 gs"
  let ?gs = "snd ?pass"
  from "1.prems" have lt: "step < num" by simp
  have unfold: "pushed (simulation_loop fl inp num step gs)
        = pushed (fst ?pass) @ pushed (simulation_loop fl inp num (Suc step) ?gs)"
    using lt by (simp add: simulation_loop.simps [of fl inp num step gs] pushed_append)
  have len: "length (pushed (fst ?pass)) = length gs" by (rule generators_pass_length)
  have kth: "pushed (fst ?pass) ! k = fst (generateTick fl (gs ! k) (inp step k))"
            "?gs ! k = snd (generateTick fl (gs ! k) (inp step k))"
    using generators_pass_nth [of k gs fl "inp step" 0] "1.prems"(3) by simp_all
  have range: "[step..<num] = step # [Suc step..<num]"
    using lt by (simp add: upt_conv_Cons)
  show ?case
  proof (cases "s = step")
    case True
    with unfold len kth "1.prems"(3) range show ?thesis
      by (simp add: nth_append)
  next
    case False
    with "1.prems" have s: "Suc step \<le> s" "s - step = Suc (s - Suc step)" by simp_all
    have "pushed (simulation_loop fl inp num (Suc step) ?gs) ! ((s - Suc step) * length ?gs + k)
          = fst (generateTicks fl (?gs ! k) (map (\<lambda>t. inp t k) [Suc step..<num])) ! (s - Suc step)"
      using lt s(1) "1.prems"(2) "1.prems"(3)
      by (intro "1.IH") (simp_all add: generators_pass_length)
    then have IH: "pushed (simulation_loop fl inp num (Suc step) ?gs) ! ((s - Suc step) * length gs + k)
          = fst (generateTicks fl (snd (generateTick fl (gs ! k) (inp step k)))
                   (map (\<lambda>t. inp t k) [Suc step..<num])) ! (s - Suc step)"
      by (simp add: generators_pass_length kth)
    have idx: "(s - step) * length gs + k = length gs + ((s - Suc step) * length gs + k)"
      using s(2) by simp
    have "pushed (simulation_loop fl inp num step gs) ! ((s - step) * length gs + k)
          = pushed (simulation_loop fl inp num (Suc step) ?gs) ! ((s - Suc step) * length gs + k)"
      unfolding unfold idx using len by (simp add: nth_append)
    with IH range s(2) show ?thesis by simp
  qed
qed

lemma pushed_simps:
  "pushed [] = []"
  "pushed (Push v # cs) = v # pushed cs"
  "pushed (Stop # cs) = pushed cs"
  "pushed (TryPop # cs) = pushed cs"
  "pushed (WaitAndPop # cs) = pushed cs"
  by (simp_all add: pushed_def)

lemma rows_of_append: "rows_of (ls @ ms) = rows_of ls @ rows_of ms"
  by (induction ls rule: rows_of.induct) simp_all

lemma rows_of_Rows: "rows_of (map Row ts) = ts"
  by (induction ts) simp_all

lemma handoff_inv_start: "handoff_inv ts (start_system True (map Push ts @ [Stop]))"
  by (simp add: handoff_inv_def start_system_def csvWriterThread_start_def new_queue_def
      pushed_append pushed_map_Push pushed_simps)

lemma handoff_inv_main:
  assumes "handoff_inv ts s"
  shows "handoff_inv ts (thread_step s MainThread)"
proof (cases "main_todo s")
  case Nil
  with assms show ?thesis by simp
next
  case (Cons c cs)
  with assms have open_q: "\<not> stop_requested_m (tickQueue s)"
    by (auto simp: handoff_inv_def)
  with assms have todo: "main_todo s = map Push (pushed (main_todo s)) @ [Stop]"
    and nf: "\<not> finished (writerThread s)"
    by (simp_all add: handoff_inv_def)
  show ?thesis
  proof (cases "pushed (main_todo s)")
    case Nil
    with todo Cons have "c = Stop" "cs = []" by simp_all
    with assms Cons nf show ?thesis
      by (simp add: handoff_inv_def stop_def pushed_simps)
  next
    case (Cons t rest)
    with todo \<open>main_todo s = c # cs\<close> have c: "c = Push t" "cs = map Push rest @ [Stop]"
      by simp_all
    with assms \<open>main_todo s = c # cs\<close> open_q nf show ?thesis
      by (simp add: handoff_inv_def push_def pushed_append pushed_map_Push pushed_simps)
  qed
qed

lemma handoff_inv_writer:
  assumes "handoff_inv ts s"
  shows "handoff_inv ts (thread_step s WriterThread)"
proof (cases "finished (writerThread s)")
  case True
  with assms show ?thesis by (simp add: csvWriterThread_turn_def)
next
  case nf: False
  show ?thesis
  proof (cases "queue_m (tickQueue s)")
    case Nil
    show ?thesis
    proof (cases "stop_requested_m (tickQueue s)")
      case True
      with Nil nf assms show ?thesis
        by (auto simp: csvWriterThread_turn_def wait_and_pop_stopped handoff_inv_def pushed_simps)
    next
      case False
      with Nil nf assms show ?thesis
        by (simp add: csvWriterThread_turn_def wait_and_pop_asleep)
    qed
  next
    case (Cons x xs)
    with nf assms show ?thesis
      by (simp add: csvWriterThread_turn_def wait_and_pop_Cons handoff_inv_def rows_of_append)
  qed
qed

lemma handoff_inv_schedule: "handoff_inv ts s \<Longrightarrow> handoff_inv ts (schedule s sch)"
proof (induction sch arbitrary: s)
  case Nil
  then show ?case by simp
next
  case (Cons t sch)
  have "handoff_inv ts (thread_step s t)"
    using Cons.prems by (cases t) (simp_all only: handoff_inv_main handoff_inv_writer)
  then show ?case by (simp add: Cons.IH)
qed

lemma handoff_inv_file:
  assumes "handoff_inv ts s"
  shows "prefix (outputFile (writerThread s)) (Header # map Row ts)"
    and "finished (writerThread s) \<Longrightarrow> outputFile (writerThread s) = Header # map Row ts"
proof -
  from assms have fl_eq: "outputFile (writerThread s) = Header # map Row (rows_of (outputFile (writerThread s)))"
    and parts: "rows_of (outputFile (writerThread s)) @ queue_m (tickQueue s) @ pushed (main_todo s) = ts"
    by (simp_all add: handoff_inv_def)
  have "prefix (Header # map Row (rows_of (outputFile (writerThread s)))) (Header # map Row ts)"
    using parts by (metis Cons_prefix_Cons map_append prefixI)
  with fl_eq show "prefix (outputFile (writerThread s)) (Header # map Row ts)" by simp
  assume fin: "finished (writerThread s)"
  with assms have "stop_requested_m (tickQueue s)" "queue_m (tickQueue s) = []"
    by (auto simp: handoff_inv_def split: if_splits)
  with assms have "main_todo s = []" by (simp add: handoff_inv_def)
  with parts \<open>queue_m (tickQueue s) = []\<close> have "rows_of (outputFile (writerThread s)) = ts"
    by (simp add: pushed_simps)
  with fl_eq show "outputFile (writerThread s) = Header # map Row ts" by simp
qed

text \<open>The schedule that lets the main thread finish first reaches the end of the writer.\<close>

lemma schedule_append: "schedule s (a @ b) = schedule (schedule s a) b"
  by (induction a arbitrary: s) simp_all

lemma schedule_main_all:
  "main_todo s = cs \<Longrightarrow>
     schedule s (replicate (length cs) MainThread)
       = s\<lparr>tickQueue := snd (run (tickQueue s) cs), main_todo := []\<rparr>"
proof (induction cs arbitrary: s)
  case Nil
  then show ?case by simp
next
  case (Cons c cs)
  then show ?case by simp
qed

lemma schedule_writer_drain:
  "queue_m (tickQueue s) = xs \<Longrightarrow> \<not> finished (writerThread s) \<Longrightarrow>
     finished (writerThread (schedule s (replicate (length xs) WriterThread))) = False
     \<and> queue_m (tickQueue (schedule s (replicate (length xs) WriterThread))) = []
     \<and> stop_requested_m (tickQueue (schedule s (replicate (length xs) WriterThread)))
         = stop_requested_m (tickQueue s)"
proof (induction xs arbitrary: s)
  case Nil
  then show ?case by simp
next
  case (Cons x xs)
  let ?s = "thread_step s WriterThread"
  from Cons.prems have "queue_m (tickQueue ?s) = xs" "\<not> finished (writerThread ?s)"
    "stop_requested_m (tickQueue ?s) = stop_requested_m (tickQueue s)"
    by (simp_all add: csvWriterThread_turn_def wait_and_pop_Cons)
  with Cons.IH [of ?s] show ?case by simp
qed

lemma run_pushes: "snd (run q (map Push ts)) = q\<lparr>queue_m := queue_m q @ ts\<rparr>"
  by (induction ts arbitrary: q) (simp_all add: push_def)

lemma sequential_schedule_finishes:
  "finished (writerThread (schedule (start_system True (map Push ts @ [Stop]))
      (replicate (Suc (length ts)) MainThread @ replicate (Suc (length ts)) WriterThread)))"
proof -
  let ?s0 = "start_system True (map Push ts @ [Stop])"
  let ?s1 = "schedule ?s0 (replicate (Suc (length ts)) MainThread)"
  let ?s2 = "schedule ?s1 (replicate (length ts) WriterThread)"
  have "?s1 = ?s0\<lparr>tickQueue := snd (run (tickQueue ?s0) (map Push ts @ [Stop])), main_todo := []\<rparr>"
    using schedule_main_all [of ?s0 "map Push ts @ [Stop]"] by (simp add: start_system_def)
  moreover have "snd (run new_queue (map Push ts @ [Stop])) = \<lparr>queue_m = ts, stop_requested_m = True\<rparr>"
    by (simp add: run_append run_pushes stop_def new_queue_def)
  ultimately have s1: "queue_m (tickQueue ?s1) = ts" "stop_requested_m (tickQueue ?s1)"
    "\<not> finished (writerThread ?s1)"
    by (simp_all add: start_system_def csvWriterThread_start_def)
  then have s2: "finished (writerThread ?s2) = False \<and> queue_m (tickQueue ?s2) = []
     \<and> stop_requested_m (tickQueue ?s2) = stop_requested_m (tickQueue ?s1)"
    by (intro schedule_writer_drain) simp_all
  with s1 have "finished (writerThread (thread_step ?s2 WriterThread))"
    by (simp add: csvWriterThread_turn_def wait_and_pop_stopped)
  moreover have "replicate (Suc (length ts)) WriterThread = replicate (length ts) WriterThread @ [WriterThread]"
    by (simp add: replicate_append_same)
  then have "schedule ?s0 (replicate (Suc (length ts)) MainThread @ replicate (Suc (length ts)) WriterThread)
     = thread_step ?s2 WriterThread"
    by (simp only: schedule_append schedule.simps)
  ultimately show ?thesis by simp
qed

lemma length_concat_replicate: "length (concat (replicate n xs)) = n * length xs"
  by (induction n) simp_all

lemma simulation_loop_length:
  "length (pushed (simulation_loop fl inp num 0 gs)) = num * length gs"
proof -
  have "length (map symbol (pushed (simulation_loop fl inp num 0 gs)))
        = length (concat (replicate (num - 0) (map symbol_m gs)))"
    by (simp only: simulation_loop_symbols)
  then show ?thesis by (simp add: length_concat_replicate)
qed

lemma producer_calls_pushed:
  "pushed (producer_calls fl inp num gs) = pushed (simulation_loop fl inp num 0 gs)"
  by (simp add: producer_calls_def pushed_append pushed_simps)

lemma producer_calls_shape:
  "producer_calls fl inp num gs = map Push (pushed (producer_calls fl inp num gs)) @ [Stop]"
  using simulation_loop_calls [of fl inp num 0 gs]
  by (simp add: producer_calls_pushed) (simp add: producer_calls_def)

text \<open>
  C9. Push order of the simulation loop and order of the persisted rows. For any vector of
  generators \<open>gs\<close> and any number of steps \<open>num\<close>, the queue calls of the main thread are
  pushes followed by one \<open>stop\<close>. The pushed ticks carry the symbols of the generators in
  the order of the vector, once per step, \<open>num\<close> times over, and the tick at position
  \<open>s * length gs + k\<close> is the tick of the call number \<open>s\<close> of the generator at position
  \<open>k\<close>: every generator is called once in every step. With the file open, under every
  schedule of the main thread and the writer thread the file is at every moment a prefix
  of the header followed by the rows of the pushed ticks in push order, and once the writer
  has returned it is all of it. The schedule in which the main thread runs to its end
  before the writer lets the writer return. For the five generators and fifty steps of
  \<^verbatim>\<open>main\<close> the symbols are GOOG, AAPL, MSFT, AMZN, TSLA, fifty times over.
\<close>

theorem simulation_push_order:
  "producer_calls fl inp num gs = map Push (pushed (producer_calls fl inp num gs)) @ [Stop]
   \<and> map symbol (pushed (producer_calls fl inp num gs)) = concat (replicate num (map symbol_m gs))
   \<and> (s < num \<and> k < length gs \<longrightarrow>
        pushed (producer_calls fl inp num gs) ! (s * length gs + k)
          = fst (generateTicks fl (gs ! k) (map (\<lambda>t. inp t k) [0..<num])) ! s)
   \<and> prefix (outputFile (writerThread (schedule (start_system True (producer_calls fl inp num gs)) sch)))
        (Header # map Row (pushed (producer_calls fl inp num gs)))
   \<and> (finished (writerThread (schedule (start_system True (producer_calls fl inp num gs)) sch)) \<longrightarrow>
        outputFile (writerThread (schedule (start_system True (producer_calls fl inp num gs)) sch))
          = Header # map Row (pushed (producer_calls fl inp num gs)))
   \<and> finished (writerThread (schedule (start_system True (producer_calls fl inp num gs))
        (replicate (Suc (num * length gs)) MainThread
         @ replicate (Suc (num * length gs)) WriterThread)))
   \<and> map symbol (pushed (main_calls fl inp))
        = concat (replicate 50 [''GOOG'', ''AAPL'', ''MSFT'', ''AMZN'', ''TSLA''])"
proof -
  let ?P = "pushed (producer_calls fl inp num gs)"
  let ?run = "schedule (start_system True (producer_calls fl inp num gs)) sch"
  have shape: "producer_calls fl inp num gs = map Push ?P @ [Stop]"
    by (rule producer_calls_shape)
  have symbols: "map symbol ?P = concat (replicate num (map symbol_m gs))"
    using simulation_loop_symbols [of fl inp num 0 gs] by (simp add: producer_calls_pushed)
  have nth: "s < num \<and> k < length gs \<longrightarrow>
        ?P ! (s * length gs + k) = fst (generateTicks fl (gs ! k) (map (\<lambda>t. inp t k) [0..<num])) ! s"
    using simulation_loop_nth [of 0 s num k gs fl inp] by (simp add: producer_calls_pushed)
  have "handoff_inv ?P (start_system True (map Push ?P @ [Stop]))"
    by (rule handoff_inv_start)
  with shape have "handoff_inv ?P (start_system True (producer_calls fl inp num gs))"
    by simp
  then have inv: "handoff_inv ?P ?run"
    by (rule handoff_inv_schedule)
  then have pre: "prefix (outputFile (writerThread ?run)) (Header # map Row ?P)"
    by (rule handoff_inv_file(1))
  have all: "finished (writerThread ?run) \<longrightarrow> outputFile (writerThread ?run) = Header # map Row ?P"
    using inv by (simp add: handoff_inv_file(2))
  have len: "length ?P = num * length gs"
    by (simp add: producer_calls_pushed simulation_loop_length)
  have "finished (writerThread (schedule (start_system True (map Push ?P @ [Stop]))
      (replicate (Suc (length ?P)) MainThread @ replicate (Suc (length ?P)) WriterThread)))"
    by (rule sequential_schedule_finishes)
  with shape len have seq: "finished (writerThread (schedule (start_system True (producer_calls fl inp num gs))
        (replicate (Suc (num * length gs)) MainThread
         @ replicate (Suc (num * length gs)) WriterThread)))"
    by simp
  have main: "map symbol (pushed (main_calls fl inp))
        = concat (replicate 50 [''GOOG'', ''AAPL'', ''MSFT'', ''AMZN'', ''TSLA''])"
    using simulation_loop_symbols [of fl inp num_simulation_steps 0 "generators fl"]
    by (simp add: main_calls_def producer_calls_pushed)
       (simp add: num_simulation_steps_def generators_def new_generator_def)
  from shape symbols nth pre all seq main show ?thesis
    by (intro conjI)
qed

theorem simulation_push_order_witness:
  "map symbol (pushed (producer_calls id (\<lambda>s k. \<lparr>now = int s, price_draw = 0, volume_draw = 1\<rparr>) 2
      [new_generator ''A'' 10 100, new_generator ''B'' 20 200, new_generator ''C'' 30 300]))
     = [''A'', ''B'', ''C'', ''A'', ''B'', ''C'']
   \<and> map volume (pushed (producer_calls id (\<lambda>s k. \<lparr>now = int s, price_draw = 0, volume_draw = 1\<rparr>) 2
      [new_generator ''A'' 10 100, new_generator ''B'' 20 200, new_generator ''C'' 30 300]))
     = [101, 201, 301, 102, 202, 302]
   \<and> outputFile (writerThread (schedule (start_system True
        (producer_calls id (\<lambda>s k. \<lparr>now = int s, price_draw = 0, volume_draw = 1\<rparr>) 2
          [new_generator ''A'' 10 100, new_generator ''B'' 20 200, new_generator ''C'' 30 300]))
        [WriterThread, MainThread, WriterThread, MainThread, MainThread, MainThread, WriterThread,
         MainThread, MainThread, MainThread, WriterThread, WriterThread, WriterThread,
         WriterThread, WriterThread]))
     = Header # map Row (pushed (producer_calls id (\<lambda>s k. \<lparr>now = int s, price_draw = 0, volume_draw = 1\<rparr>) 2
          [new_generator ''A'' 10 100, new_generator ''B'' 20 200, new_generator ''C'' 30 300]))"
proof -
  let ?calls = "producer_calls id (\<lambda>s k. \<lparr>now = int s, price_draw = 0, volume_draw = 1\<rparr>) 2
      [new_generator ''A'' 10 100, new_generator ''B'' 20 200, new_generator ''C'' 30 300]"
  let ?sch = "[WriterThread, MainThread, WriterThread, MainThread, MainThread, MainThread, WriterThread,
         MainThread, MainThread, MainThread, WriterThread, WriterThread, WriterThread,
         WriterThread, WriterThread]"
  have calls: "?calls =
     [Push \<lparr>timestamp = 0, symbol = ''A'', price = 10, volume = 101\<rparr>,
      Push \<lparr>timestamp = 0, symbol = ''B'', price = 20, volume = 201\<rparr>,
      Push \<lparr>timestamp = 0, symbol = ''C'', price = 30, volume = 301\<rparr>,
      Push \<lparr>timestamp = 1, symbol = ''A'', price = 10, volume = 102\<rparr>,
      Push \<lparr>timestamp = 1, symbol = ''B'', price = 20, volume = 202\<rparr>,
      Push \<lparr>timestamp = 1, symbol = ''C'', price = 30, volume = 302\<rparr>,
      Stop]"
    by (simp add: producer_calls_def simulation_loop.simps generateTick_def Let_def
        new_generator_def perturbedPrice_def price_floor_def volume_guard_def
        perturbedVolume_def word_sless_alt)
  have fin: "finished (writerThread (schedule (start_system True ?calls) ?sch))"
    unfolding calls
    by (simp add: start_system_def csvWriterThread_start_def csvWriterThread_turn_def
        new_queue_def push_def stop_def wait_and_pop_def wait_ready_def)
  have vols: "map symbol (pushed ?calls) = [''A'', ''B'', ''C'', ''A'', ''B'', ''C'']
      \<and> map volume (pushed ?calls) = [101, 201, 301, 102, 202, 302]"
    unfolding calls by (simp add: pushed_simps)
  from fin vols show ?thesis
    using simulation_push_order [of id "\<lambda>s k. \<lparr>now = int s, price_draw = 0, volume_draw = 1\<rparr>" 2
        "[new_generator ''A'' 10 100, new_generator ''B'' 20 200, new_generator ''C'' 30 300]"
        1 2 ?sch]
    by blast
qed

end
